theory Spec2Isabelle
  imports Complex_Main "HOL-Library.Multiset" "HOL-Library.Log_Nat"
begin

section \<open>The Coins data sheet: tables, clock, randomness\<close>

text \<open>
  The module \<^verbatim>\<open>Coins/data_sheet.py\<close> keeps three SQL tables and offers one Python
  function per operation. Each table is a list of rows in storage order; a query's
  \<^verbatim>\<open>.first()\<close> is the first matching row of that list, a query's \<^verbatim>\<open>.update(...)\<close>
  rewrites every matching row, and \<^verbatim>\<open>s.add(...)\<close> appends a row.

  Numbers: the \<^verbatim>\<open>Float\<close> column \<open>Coins\<close>, the results of \<^verbatim>\<open>time.time()\<close> and of
  \<^verbatim>\<open>random.random()\<close> are rationals. In the sweep the arithmetic on them is exact: the
  binary representation error of Python's floats is not part of that model. In
  \<^verbatim>\<open>set_Coins\<close>, where the result depends on it, the sum and the rounding are those of
  IEEE doubles. \<^verbatim>\<open>Integer\<close> columns are unbounded integers.
\<close>

record UserData =
  userid :: int
  Coins :: rat
  last_login :: int

record GroupData =
  groupid :: int
  allow :: bool

record PayData =
  id_pay :: int
  userid :: int
  date :: string
  volume :: int

record store =
  userdata :: "UserData list"
  groupdata :: "GroupData list"
  pay_data :: "PayData list"

text \<open>
  \<^verbatim>\<open>.first().Coins\<close> on a query without rows is an attribute access on \<^verbatim>\<open>None\<close>;
  adding a second row with an existing primary key fails at commit. \<open>NotFinite\<close> is not
  an exception of Python: it marks a sum of two doubles beyond the largest double, where
  the code goes on with \<^verbatim>\<open>inf\<close>, a balance that the rational column of this model does
  not hold.
\<close>

datatype error = AttributeError | IntegrityError | NotFinite

subsection \<open>Python's \<^verbatim>\<open>int(x)\<close> and \<^verbatim>\<open>round(x, 3)\<close>\<close>

text \<open>\<^verbatim>\<open>int(x)\<close> of a float truncates towards zero.\<close>

definition py_int :: "rat \<Rightarrow> int" where
  "py_int x = (if 0 \<le> x then \<lfloor>x\<rfloor> else \<lceil>x\<rceil>)"

text \<open>
  \<^verbatim>\<open>round(x, 3)\<close> rounds to the nearest multiple of \<open>1/1000\<close>, a tie going to the
  even neighbour.
\<close>

definition round_half_even :: "rat \<Rightarrow> int" where
  "round_half_even x =
     (let f = \<lfloor>x\<rfloor>; d = x - of_int f
      in if d < 1 / 2 then f else if 1 / 2 < d then f + 1 else if even f then f else f + 1)"

definition py_round3 :: "rat \<Rightarrow> rat" where
  "py_round3 x = of_int (round_half_even (x * 1000)) / 1000"

text \<open>\<^verbatim>\<open>round(n, 3)\<close> of an \<^verbatim>\<open>int\<close> is that \<^verbatim>\<open>int\<close>.\<close>

definition py_round3_int :: "int \<Rightarrow> int" where
  "py_round3_int n = n"

subsection \<open>Python's floats: IEEE doubles\<close>

text \<open>
  A finite double is a rational \<open>m * 2 ^ e\<close> with \<open>\<bar>m\<bar> < 2 ^ 53\<close> and \<open>- 1074 \<le> e\<close>.
  \<open>pow2 e\<close> is \<open>2 ^ e\<close> for an integer \<open>e\<close>, and \<open>binary_exponent x\<close> is the \<open>e\<close> with
  \<open>2 ^ e \<le> \<bar>x\<bar> < 2 ^ (e + 1)\<close>.
\<close>

definition pow2 :: "int \<Rightarrow> rat" where
  "pow2 e = (if 0 \<le> e then 2 ^ nat e else 1 / 2 ^ nat (- e))"

definition binary_exponent :: "rat \<Rightarrow> int" where
  "binary_exponent x =
     (let (p, q) = quotient_of \<bar>x\<bar>; e = bitlen p - bitlen q
      in if pow2 e \<le> \<bar>x\<bar> then e else e - 1)"

text \<open>
  The double nearest to \<open>x\<close>, a tie going to the even significand: the rounding of every
  arithmetic operation on doubles and of the conversion of a decimal numeral. Below
  \<open>2 ^ - 1022\<close> the doubles are the multiples of \<open>2 ^ - 1074\<close>.
\<close>

definition to_double :: "rat \<Rightarrow> rat" where
  "to_double x =
     (if x = 0 then 0
      else let quantum = pow2 (max (binary_exponent x) (- 1022) - 52)
           in of_int (round_half_even (x / quantum)) * quantum)"

definition double_max :: rat where
  "double_max = (2 ^ 53 - 1) * 2 ^ 971"

text \<open>
  \<^verbatim>\<open>a + b\<close> on doubles: the exact sum, rounded; \<open>None\<close> when the rounded sum is beyond
  the largest double, where Python yields \<^verbatim>\<open>inf\<close>.
\<close>

definition float_add :: "rat \<Rightarrow> rat \<Rightarrow> rat option" where
  "float_add a b =
     (let added = to_double (a + b) in if \<bar>added\<bar> \<le> double_max then Some added else None)"

text \<open>
  \<^verbatim>\<open>round(x, 3)\<close> of a double \<open>x\<close>: the exact value of \<open>x\<close> rounded to three decimals, a
  tie going to the even neighbour, and that decimal converted to the nearest double.
\<close>

definition py_round3_double :: "rat \<Rightarrow> rat" where
  "py_round3_double x = to_double (py_round3 x)"

subsection \<open>Users\<close>

definition is_in_table :: "int \<Rightarrow> store \<Rightarrow> bool" where
  "is_in_table uid s = (find (\<lambda>i. UserData.userid i = uid) (userdata s) \<noteq> None)"

text \<open>\<open>now\<close> is the value \<^verbatim>\<open>time.time()\<close> returns during the call.\<close>

definition add_new_user :: "rat \<Rightarrow> int \<Rightarrow> store \<Rightarrow> error + store" where
  "add_new_user now uid s =
     (if \<exists>i \<in> set (userdata s). UserData.userid i = uid then Inl IntegrityError
      else Inr (s\<lparr>userdata := userdata s @
                  [\<lparr>UserData.userid = uid, Coins = 10, last_login = py_int now\<rparr>]\<rparr>))"

definition set_last_login :: "int \<Rightarrow> int \<Rightarrow> UserData list \<Rightarrow> UserData list" where
  "set_last_login uid t rows =
     map (\<lambda>i. if UserData.userid i = uid then i\<lparr>last_login := t\<rparr> else i) rows"

text \<open>
  \<open>time k\<close> is the value of the \<open>k\<close>-th call of \<^verbatim>\<open>time.time()\<close> made while
  \<^verbatim>\<open>update_activity\<close> runs: one call when the user exists, two when the user is created.
\<close>

definition update_activity :: "(nat \<Rightarrow> rat) \<Rightarrow> int \<Rightarrow> store \<Rightarrow> error + store" where
  "update_activity time uid s =
     (if \<not> is_in_table uid s
      then (case add_new_user (time 0) uid s of
              Inl e \<Rightarrow> Inl e
            | Inr s1 \<Rightarrow>
                Inr (s1\<lparr>userdata := set_last_login uid (py_int (time 1)) (userdata s1)\<rparr>))
      else Inr (s\<lparr>userdata := set_last_login uid (py_int (time 0)) (userdata s)\<rparr>))"

definition get_Coins :: "int \<Rightarrow> store \<Rightarrow> error + rat" where
  "get_Coins uid s =
     (case find (\<lambda>i. UserData.userid i = uid) (userdata s) of
        None \<Rightarrow> Inl AttributeError
      | Some i \<Rightarrow> Inr (Coins i))"

text \<open>
  The argument \<^verbatim>\<open>length\<close> of the source is \<open>len\<close> here, a finite double as the stored
  balance is. \<^verbatim>\<open>current_length + length\<close> is the sum of two doubles, and
  \<^verbatim>\<open>round(..., 3)\<close> rounds that double.
\<close>

definition set_Coins :: "rat \<Rightarrow> int \<Rightarrow> rat \<Rightarrow> store \<Rightarrow> error + store" where
  "set_Coins now uid len s =
     (case find (\<lambda>i. UserData.userid i = uid) (userdata s) of
        None \<Rightarrow> Inl AttributeError
      | Some first \<Rightarrow>
          (let current_length = Coins first
           in case float_add current_length len of
                None \<Rightarrow> Inl NotFinite
              | Some added \<Rightarrow>
                  Inr (s\<lparr>userdata :=
                    map (\<lambda>i. if UserData.userid i = uid
                              then i\<lparr>Coins := py_round3_double added,
                                     last_login := py_int now\<rparr>
                              else i)
                      (userdata s)\<rparr>)))"

subsection \<open>Groups\<close>

text \<open>
  \<^verbatim>\<open>check_group_allow\<close> runs the same query twice in one session; the second run
  returns the row the first one found.
\<close>

definition check_group_allow :: "int \<Rightarrow> store \<Rightarrow> bool" where
  "check_group_allow gid s =
     (case find (\<lambda>g. groupid g = gid) (groupdata s) of
        Some g \<Rightarrow> allow g
      | None \<Rightarrow> False)"

text \<open>
  The row added for an unknown group is flushed before the bulk update runs, so the
  update reaches it.
\<close>

definition set_group_allow :: "int \<Rightarrow> bool \<Rightarrow> store \<Rightarrow> store" where
  "set_group_allow gid a s =
     (let rows = (if find (\<lambda>g. groupid g = gid) (groupdata s) = None
                  then groupdata s @ [\<lparr>groupid = gid, allow = False\<rparr>]
                  else groupdata s)
      in s\<lparr>groupdata := map (\<lambda>g. if groupid g = gid then g\<lparr>allow := a\<rparr> else g) rows\<rparr>)"

subsection \<open>Payments\<close>

text \<open>
  The key \<^verbatim>\<open>id\<close> of a new payment row is assigned by the database: one more than the
  largest key in the table.
\<close>

definition next_id :: "PayData list \<Rightarrow> int" where
  "next_id rows = fold max (map id_pay rows) 0 + 1"

text \<open>
  \<open>now_date\<close> is the string \<^verbatim>\<open>get_today()\<close> returns, in the format \<^verbatim>\<open>2023-02-04\<close>.
  The three branches are those of the source, in its order.
\<close>

definition insert_pay :: "string \<Rightarrow> int \<Rightarrow> rat \<Rightarrow> store \<Rightarrow> store" where
  "insert_pay now_date uid volume0 s =
     (let vol = py_int volume0;
          rows = pay_data s;
          new = \<lparr>id_pay = next_id rows, userid = uid, date = now_date, volume = vol\<rparr>
      in if find (\<lambda>p. PayData.userid p = uid) rows = None
         then s\<lparr>pay_data := rows @ [new]\<rparr>
         else (case find (\<lambda>p. PayData.userid p = uid \<and> date p = now_date) rows of
                 Some first \<Rightarrow>
                   (let current_volume = volume first
                    in s\<lparr>pay_data :=
                         map (\<lambda>p. if PayData.userid p = uid \<and> date p = now_date
                                   then p\<lparr>volume := py_round3_int (current_volume + vol)\<rparr>
                                   else p)
                           rows\<rparr>)
               | None \<Rightarrow> s\<lparr>pay_data := rows @ [new]\<rparr>))"

definition get_pay_data :: "int \<Rightarrow> store \<Rightarrow> (string \<times> int) list" where
  "get_pay_data uid s =
     map (\<lambda>i. (date i, volume i)) (filter (\<lambda>p. PayData.userid p = uid) (pay_data s))"

text \<open>
  \<^verbatim>\<open>get_today_pay_data\<close> calls \<^verbatim>\<open>get_today()\<close> once for the test and once more for
  the row it returns: \<open>today 0\<close> and \<open>today 1\<close>. The result is the row's integer volume,
  or the float \<^verbatim>\<open>0.0\<close>.
\<close>

definition get_today_pay_data :: "(nat \<Rightarrow> string) \<Rightarrow> int \<Rightarrow> store \<Rightarrow> error + rat" where
  "get_today_pay_data today uid s =
     (if find (\<lambda>p. PayData.userid p = uid \<and> date p = today 0) (pay_data s) \<noteq> None
      then (case find (\<lambda>p. PayData.userid p = uid \<and> date p = today 1) (pay_data s) of
              None \<Rightarrow> Inl AttributeError
            | Some first \<Rightarrow> Inr (of_int (volume first)))
      else Inr 0)"

subsection \<open>The inactivity sweep\<close>

text \<open>
  The loop of \<^verbatim>\<open>punish_all_inactive_users\<close> over the rows. \<open>time\<close> lists the values of
  the successive calls of \<^verbatim>\<open>time.time()\<close>, one per row; \<open>random\<close> lists the values of
  the successive calls of \<^verbatim>\<open>random.random()\<close>, one per punished row (the \<^verbatim>\<open>and\<close>
  of the test does not reach its right operand's branch otherwise).
\<close>

fun punish_rows :: "(nat \<Rightarrow> rat) \<Rightarrow> (nat \<Rightarrow> rat) \<Rightarrow> UserData list \<Rightarrow> UserData list" where
  "punish_rows time random [] = []"
| "punish_rows time random (i # rows) =
     (if time 0 - of_int (last_login i) > 86400 \<and> Coins i > 1
      then i\<lparr>Coins := py_round3 (Coins i - random 0)\<rparr>
             # punish_rows (\<lambda>k. time (Suc k)) (\<lambda>k. random (Suc k)) rows
      else i # punish_rows (\<lambda>k. time (Suc k)) random rows)"

definition punish_all_inactive_users :: "(nat \<Rightarrow> rat) \<Rightarrow> (nat \<Rightarrow> rat) \<Rightarrow> store \<Rightarrow> store" where
  "punish_all_inactive_users time random s =
     s\<lparr>userdata := punish_rows time random (userdata s)\<rparr>"

text \<open>\<^verbatim>\<open>random.random()\<close> returns a value in \<open>[0, 1)\<close>.\<close>

definition unit_interval :: "(nat \<Rightarrow> rat) \<Rightarrow> bool" where
  "unit_interval random = (\<forall>k. 0 \<le> random k \<and> random k < 1)"

subsection \<open>The leaderboard\<close>

text \<open>
  \<^verbatim>\<open>order_by(UserData.Coins.desc())\<close>: the rows by decreasing \<open>Coins\<close>. Each dictionary
  \<^verbatim>\<open>{"userid": ..., "Coins": ...}\<close> is a pair.
\<close>

definition get_sorted :: "store \<Rightarrow> (int \<times> rat) list" where
  "get_sorted s =
     map (\<lambda>i. (UserData.userid i, Coins i)) (sort_key (\<lambda>i. - Coins i) (userdata s))"

subsection \<open>The payment table's invariant\<close>

text \<open>At most one row for each pair of a user and a date.\<close>

definition pay_key :: "PayData \<Rightarrow> int \<times> string" where
  "pay_key p = (PayData.userid p, date p)"

definition pay_unique :: "PayData list \<Rightarrow> bool" where
  "pay_unique rows = distinct (map pay_key rows)"

text \<open>A sequence of calls of \<^verbatim>\<open>insert_pay\<close>, each with its date, user and volume.\<close>

definition insert_pays :: "(string \<times> int \<times> rat) list \<Rightarrow> store \<Rightarrow> store" where
  "insert_pays calls s = fold (\<lambda>(now_date, uid, volume0). insert_pay now_date uid volume0) calls s"

subsection \<open>Concrete stores\<close>

text \<open>
  Three users at the time \<open>172800\<close>: one idle for two days with 5 coins, one who logged in
  just now, one idle with half a coin.
\<close>

definition sweep_store :: store where
  "sweep_store =
     \<lparr>userdata = [\<lparr>UserData.userid = 1, Coins = 5, last_login = 0\<rparr>,
                  \<lparr>UserData.userid = 2, Coins = 7, last_login = 172800\<rparr>,
                  \<lparr>UserData.userid = 3, Coins = 1 / 2, last_login = 0\<rparr>],
      groupdata = [], pay_data = []\<rparr>"

text \<open>One user with the balance of a new account, and one group that allows the check-in.\<close>

definition fresh_store :: store where
  "fresh_store =
     \<lparr>userdata = [\<lparr>UserData.userid = 1, Coins = 10, last_login = 0\<rparr>],
      groupdata = [\<lparr>groupid = 5, allow = True\<rparr>], pay_data = []\<rparr>"

text \<open>A table with the single user 1, with the given balance and time of the last login.\<close>

definition single_user :: "rat \<Rightarrow> int \<Rightarrow> store" where
  "single_user coins t =
     \<lparr>userdata = [\<lparr>UserData.userid = 1, Coins = coins, last_login = t\<rparr>],
      groupdata = [], pay_data = []\<rparr>"

text \<open>
  Payments of two users: user 1 on the third of February, user 2 on the fourth.
\<close>

definition paid_store :: store where
  "paid_store =
     \<lparr>userdata = [\<lparr>UserData.userid = 1, Coins = 10, last_login = 0\<rparr>],
      groupdata = [],
      pay_data = [\<lparr>id_pay = 1, userid = 1, date = ''2023-02-03'', volume = 40\<rparr>,
                  \<lparr>id_pay = 2, userid = 2, date = ''2023-02-04'', volume = 7\<rparr>]\<rparr>"

section \<open>Rounding\<close>

lemma round_half_even_near: "\<bar>x - of_int (round_half_even x)\<bar> \<le> 1 / 2"
proof -
  have "of_int \<lfloor>x\<rfloor> \<le> x" "x < of_int \<lfloor>x\<rfloor> + 1" by linarith+
  then show ?thesis
    by (auto simp: round_half_even_def Let_def)
qed

lemma round_half_even_unique:
  assumes "\<bar>x - of_int n\<bar> < 1 / 2"
  shows "round_half_even x = n"
proof -
  have "\<bar>x - of_int (round_half_even x)\<bar> \<le> 1 / 2" by (rule round_half_even_near)
  with assms have "\<bar>(of_int (round_half_even x) :: rat) - of_int n\<bar> < 1" by linarith
  then have "\<bar>of_int (round_half_even x - n) :: rat\<bar> < 1" by simp
  then have "\<bar>round_half_even x - n\<bar> < 1"
    by (metis of_int_abs of_int_less_1_iff)
  then show ?thesis by linarith
qed

lemma round_half_even_of_int [simp]: "round_half_even (of_int n) = n"
  by (rule round_half_even_unique) simp

lemma round_half_even_ge:
  assumes "of_int n \<le> x"
  shows "n \<le> round_half_even x"
proof -
  have "n \<le> \<lfloor>x\<rfloor>" using assms by (simp add: le_floor_iff)
  moreover have "\<lfloor>x\<rfloor> \<le> round_half_even x"
    by (simp add: round_half_even_def Let_def)
  ultimately show ?thesis by linarith
qed


lemma py_round3_nonneg: "0 \<le> x \<Longrightarrow> 0 \<le> py_round3 x"
  using round_half_even_ge [of 0 "x * 1000"] by (simp add: py_round3_def)

lemma py_round3_thousandth [simp]: "py_round3 (of_int k / 1000) = of_int k / 1000"
  by (simp add: py_round3_def)

lemma py_round3_idem [simp]: "py_round3 (py_round3 x) = py_round3 x"
  unfolding py_round3_def[of x] by (rule py_round3_thousandth)





lemma py_int_of_int [simp]: "py_int (of_int n) = n"
  by (simp add: py_int_def)

lemma py_int_numeral [simp]: "py_int (numeral n) = numeral n"
  using py_int_of_int [of "numeral n"] by simp

section \<open>Doubles\<close>

text \<open>
  The rounding to a double moves a value below \<open>2 ^ n\<close> by at most \<open>2 ^ (n - 53)\<close>.
\<close>

lemma pow2_power_int: "pow2 e = power_int 2 e"
proof (cases "0 \<le> e")
  case True
  then show ?thesis by (simp add: pow2_def power_int_def)
next
  case False
  have "(1 :: rat) / 2 ^ nat (- e) = inverse 2 ^ nat (- e)"
    by (simp add: power_one_over inverse_eq_divide)
  with False show ?thesis by (simp add: pow2_def power_int_def)
qed

lemma pow2_pos [simp]: "0 < pow2 e"
  by (simp add: pow2_power_int)

lemma pow2_mono: "a \<le> b \<Longrightarrow> pow2 a \<le> pow2 b"
  by (simp add: pow2_power_int power_int_increasing)

lemma pow2_between:
  assumes "pow2 a \<le> x" and "x < pow2 b"
  shows "a < b"
proof (rule ccontr)
  assume "\<not> a < b"
  then have "pow2 b \<le> pow2 a" by (intro pow2_mono) simp
  with assms show False by linarith
qed

lemma binary_exponent_le:
  assumes "x \<noteq> 0"
  shows "pow2 (binary_exponent x) \<le> \<bar>x\<bar>"
proof -
  obtain p q where pq: "quotient_of \<bar>x\<bar> = (p, q)" by (cases "quotient_of \<bar>x\<bar>")
  then have q: "0 < q" and x: "\<bar>x\<bar> = of_int p / of_int q"
    by (rule quotient_of_denom_pos, rule quotient_of_div)
  from assms x q have p: "0 < p"
    by (metis abs_of_pos abs_zero divide_eq_0_iff of_int_0 of_int_pos not_less_iff_gr_or_eq
        zero_less_abs_iff zero_less_divide_iff of_int_0_less_iff)
  define e where "e = bitlen p - bitlen q"
  show ?thesis
  proof (cases "pow2 e \<le> \<bar>x\<bar>")
    case True
    then show ?thesis by (simp add: binary_exponent_def pq e_def)
  next
    case False
    from bitlen_bounds [OF p] have lo: "(2 :: rat) ^ nat (bitlen p - 1) \<le> of_int p"
      by (metis of_int_le_iff of_int_numeral of_int_power)
    from bitlen_bounds [OF q] have "of_int q < (2 :: rat) ^ nat (bitlen q)"
      by (metis of_int_less_iff of_int_numeral of_int_power)
    then have hi: "of_int q \<le> (2 :: rat) ^ nat (bitlen q)" by simp
    from p q have bl: "1 \<le> bitlen p" "1 \<le> bitlen q"
      by (simp_all add: bitlen_alt_def)
    have "pow2 (e - 1) = pow2 (bitlen p - 1) / pow2 (bitlen q)"
      using power_int_diff [of "2 :: rat" "bitlen p - 1" "bitlen q"]
      by (simp add: pow2_power_int e_def algebra_simps)
    also have "\<dots> = 2 ^ nat (bitlen p - 1) / 2 ^ nat (bitlen q)"
      using bl by (simp add: pow2_def)
    also have "\<dots> \<le> of_int p / of_int q"
      using lo hi p q by (intro frac_le) simp_all
    finally have "pow2 (e - 1) \<le> \<bar>x\<bar>" by (simp add: x)
    with False show ?thesis by (simp add: binary_exponent_def pq e_def)
  qed
qed

lemma binary_exponent_gt:
  assumes "x \<noteq> 0"
  shows "\<bar>x\<bar> < pow2 (binary_exponent x + 1)"
proof -
  obtain p q where pq: "quotient_of \<bar>x\<bar> = (p, q)" by (cases "quotient_of \<bar>x\<bar>")
  then have q: "0 < q" and x: "\<bar>x\<bar> = of_int p / of_int q"
    by (rule quotient_of_denom_pos, rule quotient_of_div)
  from assms x q have p: "0 < p"
    by (metis abs_of_pos abs_zero divide_eq_0_iff of_int_0 of_int_pos not_less_iff_gr_or_eq
        zero_less_abs_iff zero_less_divide_iff of_int_0_less_iff)
  define e where "e = bitlen p - bitlen q"
  show ?thesis
  proof (cases "pow2 e \<le> \<bar>x\<bar>")
    case True
    from bitlen_bounds [OF p] have hi: "of_int p < (2 :: rat) ^ nat (bitlen p)"
      by (metis of_int_less_iff of_int_numeral of_int_power)
    from bitlen_bounds [OF q] have lo: "(2 :: rat) ^ nat (bitlen q - 1) \<le> of_int q"
      by (metis of_int_le_iff of_int_numeral of_int_power)
    from p q have bl: "1 \<le> bitlen p" "1 \<le> bitlen q"
      by (simp_all add: bitlen_alt_def)
    have "of_int p / of_int q < (2 :: rat) ^ nat (bitlen p) / 2 ^ nat (bitlen q - 1)"
      using lo hi p q by (intro frac_less) simp_all
    also have "\<dots> = pow2 (bitlen p) / pow2 (bitlen q - 1)"
      using bl by (simp add: pow2_def)
    also have "\<dots> = pow2 (e + 1)"
      using power_int_diff [of "2 :: rat" "bitlen p" "bitlen q - 1"]
      by (simp add: pow2_power_int e_def algebra_simps)
    finally have "\<bar>x\<bar> < pow2 (e + 1)" by (simp add: x)
    with True show ?thesis by (simp add: binary_exponent_def pq e_def)
  next
    case False
    then show ?thesis by (simp add: binary_exponent_def pq e_def)
  qed
qed

lemma to_double_error:
  assumes "\<bar>x\<bar> < pow2 n" and "- 1021 \<le> n"
  shows "\<bar>to_double x - x\<bar> \<le> pow2 (n - 53)"
proof (cases "x = 0")
  case True
  then show ?thesis using less_imp_le [OF pow2_pos [of "n - 53"]] by (simp add: to_double_def)
next
  case False
  define quantum where "quantum = pow2 (max (binary_exponent x) (- 1022) - 52)"
  from binary_exponent_le [OF False] assms(1) have "binary_exponent x < n"
    by (rule pow2_between)
  with assms(2) have "max (binary_exponent x) (- 1022) - 52 \<le> n - 53" by simp
  then have small: "quantum \<le> pow2 (n - 53)" unfolding quantum_def by (rule pow2_mono)
  have pos: "0 < quantum" by (simp add: quantum_def)
  have eq: "to_double x = of_int (round_half_even (x / quantum)) * quantum"
    using False by (simp add: to_double_def quantum_def Let_def)
  have "to_double x - x = (of_int (round_half_even (x / quantum)) - x / quantum) * quantum"
    using pos by (simp add: eq field_simps)
  then have "\<bar>to_double x - x\<bar> = \<bar>x / quantum - of_int (round_half_even (x / quantum))\<bar> * quantum"
    using pos by (simp add: abs_mult abs_minus_commute)
  also have "\<dots> \<le> (1 / 2) * quantum"
    using round_half_even_near [of "x / quantum"] pos by (intro mult_right_mono) simp_all
  also have "\<dots> \<le> quantum" using pos by simp
  finally show ?thesis using small by linarith
qed

lemma pow2_values:
  "pow2 3 = 8" "pow2 37 = 137438953472" "pow2 38 = 274877906944"
  "pow2 (- 50) = 1 / 1125899906842624" "pow2 (- 16) = 1 / 65536" "pow2 (- 15) = 1 / 32768"
  by (simp_all add: pow2_def)



lemma to_double_thousandth:
  assumes "\<bar>of_int k / 1000 :: rat\<bar> < 137438953472"
  shows "\<bar>to_double (of_int k / 1000) - of_int k / 1000\<bar> \<le> 1 / 65536"
  using to_double_error [of "of_int k / 1000" 37] assms by (simp add: pow2_values)


lemma py_round3_double_near:
  assumes "\<bar>x - (of_int k / 1000 + e)\<bar> \<le> 1 / 16384" and "\<bar>e\<bar> \<le> 3 / 10000"
  shows "py_round3_double x = to_double (of_int k / 1000)"
proof -
  from assms have "\<bar>x * 1000 - of_int k\<bar> < 1 / 2" by linarith
  then have "round_half_even (x * 1000) = k" by (rule round_half_even_unique)
  then show ?thesis by (simp add: py_round3_double_def py_round3_def)
qed

text \<open>
  What \<^verbatim>\<open>round(x, 3)\<close> returns is a balance of three decimals: rounding it again gives
  the same double.
\<close>

lemma py_round3_double_again:
  assumes "\<bar>py_round3 x\<bar> < 137438953472"
  shows "py_round3_double (py_round3_double x) = py_round3_double x"
proof -
  define k where "k = round_half_even (x * 1000)"
  have r: "py_round3 x = of_int k / 1000" by (simp add: py_round3_def k_def)
  with assms have "\<bar>to_double (of_int k / 1000) - of_int k / 1000\<bar> \<le> 1 / 65536"
    by (intro to_double_thousandth) simp
  then have "\<bar>to_double (of_int k / 1000) - (of_int k / 1000 + 0)\<bar> \<le> 1 / 16384" by linarith
  then have "py_round3_double (to_double (of_int k / 1000)) = to_double (of_int k / 1000)"
    by (rule py_round3_double_near) simp
  then show ?thesis by (simp add: py_round3_double_def r)
qed


section \<open>Queries\<close>

lemma find_append:
  "find P (xs @ ys) = (case find P xs of None \<Rightarrow> find P ys | Some x \<Rightarrow> Some x)"
  by (induction xs) simp_all

lemma find_map_update:
  assumes "\<And>x. P (f x) = P x"
  shows "find P (map (\<lambda>x. if P x then f x else x) xs) = map_option f (find P xs)"
  by (induction xs) (simp_all add: assms)

lemma find_map_other:
  assumes "\<And>x. Q (f x) = Q x" and "\<And>x. Q x \<Longrightarrow> \<not> P x"
  shows "find Q (map (\<lambda>x. if P x then f x else x) xs) = find Q xs"
  using assms by (induction xs) auto

lemma find_userid_None:
  "(find (\<lambda>i. UserData.userid i = uid) rows = None) = (uid \<notin> UserData.userid ` set rows)"
  by (auto simp: find_None_iff)

lemma find_userid_map:
  assumes "\<And>i. UserData.userid (f i) = UserData.userid i"
  shows "find (\<lambda>i. UserData.userid i = uid)
           (map (\<lambda>i. if UserData.userid i = uid then f i else i) rows) =
         map_option f (find (\<lambda>i. UserData.userid i = uid) rows)"
  by (induction rows) (simp_all add: assms)

lemma find_userid_appended:
  assumes "uid \<notin> UserData.userid ` set rows" and "UserData.userid i = uid"
  shows "find (\<lambda>i. UserData.userid i = uid) (rows @ [i]) = Some i"
proof -
  from assms(1) have "find (\<lambda>i. UserData.userid i = uid) rows = None"
    by (simp add: find_userid_None)
  with assms(2) show ?thesis by (simp add: find_append)
qed

lemma find_groupid_map:
  "find (\<lambda>g. groupid g = gid) (map (\<lambda>g. if groupid g = gid then g\<lparr>allow := a\<rparr> else g) rows) =
   map_option (\<lambda>g. g\<lparr>allow := a\<rparr>) (find (\<lambda>g. groupid g = gid) rows)"
  by (induction rows) simp_all

lemma find_pay_None:
  "(find (\<lambda>p. PayData.userid p = uid \<and> date p = d) rows = None) =
   ((uid, d) \<notin> pay_key ` set rows)"
  by (auto simp: find_None_iff pay_key_def)

section \<open>Users\<close>

lemma add_new_user_fresh:
  assumes "uid \<notin> UserData.userid ` set (userdata s)"
  shows "add_new_user now uid s =
           Inr (s\<lparr>userdata := userdata s @
                  [\<lparr>UserData.userid = uid, Coins = 10, last_login = py_int now\<rparr>]\<rparr>)"
  using assms by (auto simp: add_new_user_def)

text \<open>
  C3. For a \<open>userid\<close> without a row, \<^verbatim>\<open>is_in_table\<close> is false; \<^verbatim>\<open>add_new_user\<close> and
  \<^verbatim>\<open>update_activity\<close> both succeed, and afterwards \<^verbatim>\<open>is_in_table\<close> is true,
  \<^verbatim>\<open>get_Coins\<close> returns \<open>10.0\<close> and the user's row has \<open>last_login = int(time.time())\<close>
  (for \<^verbatim>\<open>update_activity\<close>, the clock's second reading).
\<close>

theorem new_user_defaults:
  assumes fresh: "uid \<notin> UserData.userid ` set (userdata s)"
  shows "\<not> is_in_table uid s \<and>
     (\<exists>s'. add_new_user now uid s = Inr s' \<and> is_in_table uid s' \<and> get_Coins uid s' = Inr 10 \<and>
        find (\<lambda>i. UserData.userid i = uid) (userdata s') =
          Some \<lparr>UserData.userid = uid, Coins = 10, last_login = py_int now\<rparr>) \<and>
     (\<exists>s'. update_activity time uid s = Inr s' \<and> is_in_table uid s' \<and> get_Coins uid s' = Inr 10 \<and>
        find (\<lambda>i. UserData.userid i = uid) (userdata s') =
          Some \<lparr>UserData.userid = uid, Coins = 10, last_login = py_int (time 1)\<rparr>)"
proof (intro conjI)
  show absent: "\<not> is_in_table uid s"
    using fresh by (simp add: is_in_table_def find_userid_None)
  let ?row = "\<lambda>t. \<lparr>UserData.userid = uid, Coins = 10, last_login = py_int t\<rparr>"
  let ?added = "\<lambda>t. s\<lparr>userdata := userdata s @ [?row t]\<rparr>"
  have found: "find (\<lambda>i. UserData.userid i = uid) (userdata (?added t)) = Some (?row t)" for t
    using find_userid_appended [OF fresh, of "?row t"] by simp
  show "\<exists>s'. add_new_user now uid s = Inr s' \<and> is_in_table uid s' \<and> get_Coins uid s' = Inr 10 \<and>
        find (\<lambda>i. UserData.userid i = uid) (userdata s') = Some (?row now)"
    using add_new_user_fresh [OF fresh, of now] found [of now]
    by (intro exI [of _ "?added now"]) (simp add: is_in_table_def get_Coins_def)
  let ?touched = "(?added (time 0))\<lparr>userdata :=
      set_last_login uid (py_int (time 1)) (userdata (?added (time 0)))\<rparr>"
  have upd: "update_activity time uid s = Inr ?touched"
    using absent add_new_user_fresh [OF fresh, of "time 0"] by (simp add: update_activity_def)
  have "find (\<lambda>i. UserData.userid i = uid) (userdata ?touched) =
          map_option (\<lambda>i. i\<lparr>last_login := py_int (time 1)\<rparr>)
            (find (\<lambda>i. UserData.userid i = uid) (userdata (?added (time 0))))"
    unfolding set_last_login_def
    using find_userid_map [of "\<lambda>i. i\<lparr>last_login := py_int (time 1)\<rparr>" uid "userdata (?added (time 0))"]
    by simp
  with found [of "time 0"]
  have found': "find (\<lambda>i. UserData.userid i = uid) (userdata ?touched) = Some (?row (time 1))"
    by simp
  show "\<exists>s'. update_activity time uid s = Inr s' \<and> is_in_table uid s' \<and> get_Coins uid s' = Inr 10 \<and>
        find (\<lambda>i. UserData.userid i = uid) (userdata s') = Some (?row (time 1))"
    using upd found' by (intro exI [of _ ?touched]) (simp add: is_in_table_def get_Coins_def)
qed

theorem new_user_defaults_witness:
  "7 \<notin> UserData.userid ` set (userdata fresh_store) \<and> \<not> is_in_table 7 fresh_store \<and>
   (\<exists>s'. add_new_user (3 / 2) 7 fresh_store = Inr s' \<and> is_in_table 7 s' \<and>
      get_Coins 7 s' = Inr 10 \<and>
      find (\<lambda>i. UserData.userid i = 7) (userdata s') =
        Some \<lparr>UserData.userid = 7, Coins = 10, last_login = py_int (3 / 2)\<rparr>) \<and>
   (\<exists>s'. update_activity (\<lambda>k. 3 / 2 + of_nat k) 7 fresh_store = Inr s' \<and> is_in_table 7 s' \<and>
      get_Coins 7 s' = Inr 10 \<and>
      find (\<lambda>i. UserData.userid i = 7) (userdata s') =
        Some \<lparr>UserData.userid = 7, Coins = 10, last_login = py_int (3 / 2 + of_nat 1)\<rparr>)"
proof -
  have fresh: "7 \<notin> UserData.userid ` set (userdata fresh_store)"
    by (simp add: fresh_store_def)
  from fresh new_user_defaults [OF fresh, of "3 / 2" "\<lambda>k. 3 / 2 + of_nat k"]
  show ?thesis by simp
qed





text \<open>
  The sum of two doubles is rounded before \<^verbatim>\<open>round(..., 3)\<close> sees it: the doubles written
  \<^verbatim>\<open>0.005\<close> and \<^verbatim>\<open>0.0005\<close> add up to a double below \<open>0.0055\<close>, and the balance stays at
  \<^verbatim>\<open>0.005\<close>.
\<close>

lemma set_Coins_rounds_the_sum:
  "set_Coins 0 1 (to_double (5 / 10000)) (single_user (to_double (5 / 1000)) 0) =
     Inr (single_user (to_double (5 / 1000)) 0)"
  by code_simp

section \<open>Groups\<close>

text \<open>
  C5. After \<^verbatim>\<open>set_group_allow(g, a)\<close> the call \<^verbatim>\<open>check_group_allow(g)\<close> returns \<open>a\<close>,
  whether or not the group had a row; for a group without a row \<^verbatim>\<open>check_group_allow\<close>
  returns \<open>False\<close>.
\<close>

theorem set_group_allow_then_check:
  "check_group_allow gid (set_group_allow gid a s) = a \<and>
   (gid \<notin> groupid ` set (groupdata s) \<longrightarrow> check_group_allow gid s = False)"
proof
  show "check_group_allow gid (set_group_allow gid a s) = a"
  proof (cases "find (\<lambda>g. groupid g = gid) (groupdata s)")
    case None
    then show ?thesis
      by (simp add: check_group_allow_def set_group_allow_def find_groupid_map find_append)
  next
    case (Some g)
    then show ?thesis
      by (simp add: check_group_allow_def set_group_allow_def find_groupid_map)
  qed
next
  show "gid \<notin> groupid ` set (groupdata s) \<longrightarrow> check_group_allow gid s = False"
  proof
    assume "gid \<notin> groupid ` set (groupdata s)"
    then have "find (\<lambda>g. groupid g = gid) (groupdata s) = None"
      by (auto simp: find_None_iff)
    then show "check_group_allow gid s = False" by (simp add: check_group_allow_def)
  qed
qed

theorem set_group_allow_then_check_witness:
  "check_group_allow 8 (set_group_allow 8 True fresh_store) = True \<and>
   check_group_allow 5 (set_group_allow 5 False fresh_store) = False \<and>
   8 \<notin> groupid ` set (groupdata fresh_store) \<and> check_group_allow 8 fresh_store = False"
proof -
  have absent: "8 \<notin> groupid ` set (groupdata fresh_store)" by (simp add: fresh_store_def)
  from set_group_allow_then_check [of 8 True fresh_store]
    set_group_allow_then_check [of 5 False fresh_store] absent
  show ?thesis by simp
qed

section \<open>Payments\<close>

lemma insert_pay_append:
  assumes "(uid, d) \<notin> pay_key ` set (pay_data s)"
  shows "insert_pay d uid v s =
           s\<lparr>pay_data := pay_data s @
              [\<lparr>id_pay = next_id (pay_data s), userid = uid, date = d, volume = py_int v\<rparr>]\<rparr>"
proof -
  from assms have "find (\<lambda>p. PayData.userid p = uid \<and> date p = d) (pay_data s) = None"
    by (simp add: find_pay_None)
  then show ?thesis by (simp add: insert_pay_def Let_def)
qed

lemma insert_pay_update:
  assumes "find (\<lambda>p. PayData.userid p = uid \<and> date p = d) (pay_data s) = Some first"
  shows "insert_pay d uid v s =
           s\<lparr>pay_data := map (\<lambda>p. if PayData.userid p = uid \<and> date p = d
                                     then p\<lparr>volume := volume first + py_int v\<rparr> else p)
                             (pay_data s)\<rparr>"
proof -
  from assms have "first \<in> set (pay_data s)" "PayData.userid first = uid"
    by (auto simp: find_Some_iff)
  then have "find (\<lambda>p. PayData.userid p = uid) (pay_data s) \<noteq> None"
    by (auto simp: find_None_iff)
  with assms show ?thesis by (simp add: insert_pay_def Let_def py_round3_int_def)
qed

lemma get_today_insert_pay:
  "\<exists>t. get_today_pay_data (\<lambda>k. d) uid s = Inr t \<and>
       get_today_pay_data (\<lambda>k. d) uid (insert_pay d uid v s) = Inr (t + of_int (py_int v))"
proof (cases "find (\<lambda>p. PayData.userid p = uid \<and> date p = d) (pay_data s)")
  case None
  then have "(uid, d) \<notin> pay_key ` set (pay_data s)" by (simp add: find_pay_None)
  from insert_pay_append [OF this] None show ?thesis
    by (simp add: get_today_pay_data_def find_append)
next
  case (Some first)
  from insert_pay_update [OF Some] Some
    find_map_update [of "\<lambda>p. PayData.userid p = uid \<and> date p = d"
      "\<lambda>p. p\<lparr>volume := volume first + py_int v\<rparr>" "pay_data s"]
  show ?thesis by (simp add: get_today_pay_data_def)
qed

lemma get_other_day_insert_pay:
  assumes "d0 \<noteq> d"
  shows "find (\<lambda>p. PayData.userid p = u \<and> date p = d0) (pay_data (insert_pay d uid v s)) =
         find (\<lambda>p. PayData.userid p = u \<and> date p = d0) (pay_data s)"
proof (cases "find (\<lambda>p. PayData.userid p = uid \<and> date p = d) (pay_data s)")
  case None
  then have "(uid, d) \<notin> pay_key ` set (pay_data s)" by (simp add: find_pay_None)
  from insert_pay_append [OF this] assms show ?thesis
    by (simp add: find_append split: option.splits)
next
  case (Some first)
  from insert_pay_update [OF Some] assms
    find_map_other [of "\<lambda>p. PayData.userid p = u \<and> date p = d0"
      "\<lambda>p. p\<lparr>volume := volume first + py_int v\<rparr>"
      "\<lambda>p. PayData.userid p = uid \<and> date p = d" "pay_data s"]
  show ?thesis by simp
qed

lemma other_day_rows_insert_pay:
  assumes "d0 \<noteq> d"
  shows "filter (\<lambda>p. date p = d0) (pay_data (insert_pay d uid v s)) =
         filter (\<lambda>p. date p = d0) (pay_data s)"
proof (cases "find (\<lambda>p. PayData.userid p = uid \<and> date p = d) (pay_data s)")
  case None
  then have "(uid, d) \<notin> pay_key ` set (pay_data s)" by (simp add: find_pay_None)
  from insert_pay_append [OF this] assms show ?thesis by simp
next
  case (Some first)
  have "filter (\<lambda>p. date p = d0) (map (\<lambda>p. if PayData.userid p = uid \<and> date p = d
            then p\<lparr>volume := volume first + py_int v\<rparr> else p) rows) =
        filter (\<lambda>p. date p = d0) rows" for rows
    using assms by (induction rows) auto
  with insert_pay_update [OF Some] show ?thesis by simp
qed

text \<open>
  C2. \<^verbatim>\<open>insert_pay\<close> truncates the volume by \<^verbatim>\<open>int\<close>. (a) A user without any payment row
  gets a new row for today. (b) A user with a row for today has the volume added to it.
  (c) A user with rows for other days only gets a new row for today. So two payments of
  100 and 50 on a day without an earlier payment make \<^verbatim>\<open>get_today_pay_data\<close> return 150,
  and a payment leaves the rows of every other day, and what \<^verbatim>\<open>get_today_pay_data\<close>
  returns on such a day, as they were.
\<close>

theorem insert_pay_cases:
  "let rows = pay_data s;
       vol = py_int v;
       new = \<lparr>id_pay = next_id rows, userid = uid, date = d, volume = vol\<rparr>;
       rows' = pay_data (insert_pay d uid v s)
   in (uid \<notin> PayData.userid ` set rows \<longrightarrow> rows' = rows @ [new]) \<and>
      (\<forall>first. find (\<lambda>p. PayData.userid p = uid \<and> date p = d) rows = Some first \<longrightarrow>
         rows' = map (\<lambda>p. if PayData.userid p = uid \<and> date p = d
                          then p\<lparr>volume := volume first + vol\<rparr> else p) rows) \<and>
      (uid \<in> PayData.userid ` set rows \<and> (uid, d) \<notin> pay_key ` set rows \<longrightarrow>
         rows' = rows @ [new]) \<and>
      ((uid, d) \<notin> pay_key ` set rows \<longrightarrow>
         get_today_pay_data (\<lambda>k. d) uid (insert_pay d uid 50 (insert_pay d uid 100 s)) = Inr 150) \<and>
      (\<exists>t. get_today_pay_data (\<lambda>k. d) uid s = Inr t \<and>
         get_today_pay_data (\<lambda>k. d) uid (insert_pay d uid 50 (insert_pay d uid 100 s)) =
           Inr (t + 150)) \<and>
      (\<forall>d0 u. d0 \<noteq> d \<longrightarrow>
         filter (\<lambda>p. date p = d0) rows' = filter (\<lambda>p. date p = d0) rows \<and>
         get_today_pay_data (\<lambda>k. d0) u (insert_pay d uid v s) = get_today_pay_data (\<lambda>k. d0) u s)"
proof -
  define rows where "rows = pay_data s"
  define new where "new = \<lparr>id_pay = next_id rows, userid = uid, date = d, volume = py_int v\<rparr>"
  define rows' where "rows' = pay_data (insert_pay d uid v s)"
  have a: "rows' = rows @ [new]" if "uid \<notin> PayData.userid ` set rows"
  proof -
    from that have "(uid, d) \<notin> pay_key ` set (pay_data s)"
      by (auto simp: rows_def pay_key_def)
    from insert_pay_append [OF this] show ?thesis by (simp add: rows'_def rows_def new_def)
  qed
  have b: "rows' = map (\<lambda>p. if PayData.userid p = uid \<and> date p = d
                          then p\<lparr>volume := volume first + py_int v\<rparr> else p) rows"
    if "find (\<lambda>p. PayData.userid p = uid \<and> date p = d) rows = Some first" for first
    using insert_pay_update [of uid d s first v] that by (simp add: rows'_def rows_def)
  have c: "rows' = rows @ [new]" if "(uid, d) \<notin> pay_key ` set rows"
    using insert_pay_append [of uid d s v] that by (simp add: rows'_def rows_def new_def)
  have sum: "\<exists>t. get_today_pay_data (\<lambda>k. d) uid s = Inr t \<and>
         get_today_pay_data (\<lambda>k. d) uid (insert_pay d uid 50 (insert_pay d uid 100 s)) =
           Inr (t + 150)"
  proof -
    from get_today_insert_pay [of d uid s 100] obtain t
      where t0: "get_today_pay_data (\<lambda>k. d) uid s = Inr t"
        and t1: "get_today_pay_data (\<lambda>k. d) uid (insert_pay d uid 100 s) = Inr (t + 100)"
      by auto
    from get_today_insert_pay [of d uid "insert_pay d uid 100 s" 50] t1
    have "get_today_pay_data (\<lambda>k. d) uid (insert_pay d uid 50 (insert_pay d uid 100 s)) =
           Inr (t + 150)" by simp
    with t0 show ?thesis by blast
  qed
  have twice: "get_today_pay_data (\<lambda>k. d) uid (insert_pay d uid 50 (insert_pay d uid 100 s)) = Inr 150"
    if "(uid, d) \<notin> pay_key ` set rows"
  proof -
    from that have "find (\<lambda>p. PayData.userid p = uid \<and> date p = d) (pay_data s) = None"
      by (simp add: find_pay_None rows_def)
    then have "get_today_pay_data (\<lambda>k. d) uid s = Inr 0"
      by (simp add: get_today_pay_data_def)
    with sum show ?thesis by auto
  qed
  have other: "filter (\<lambda>p. date p = d0) rows' = filter (\<lambda>p. date p = d0) rows \<and>
         get_today_pay_data (\<lambda>k. d0) u (insert_pay d uid v s) = get_today_pay_data (\<lambda>k. d0) u s"
    if "d0 \<noteq> d" for d0 u
    using other_day_rows_insert_pay [OF that, of uid v s] get_other_day_insert_pay [OF that, of u uid v s]
    by (simp add: rows'_def rows_def get_today_pay_data_def)
  from a b c twice sum other show ?thesis
    unfolding Let_def rows_def [symmetric] new_def [symmetric] rows'_def [symmetric] by blast
qed

theorem insert_pay_cases_witness:
  "3 \<notin> PayData.userid ` set (pay_data paid_store) \<and>
   pay_data (insert_pay ''2023-02-04'' 3 (25 / 2) paid_store) =
     pay_data paid_store @ [\<lparr>id_pay = 3, userid = 3, date = ''2023-02-04'', volume = 12\<rparr>] \<and>
   find (\<lambda>p. PayData.userid p = 2 \<and> date p = ''2023-02-04'') (pay_data paid_store) =
     Some \<lparr>id_pay = 2, userid = 2, date = ''2023-02-04'', volume = 7\<rparr> \<and>
   pay_data (insert_pay ''2023-02-04'' 2 5 paid_store) =
     [\<lparr>id_pay = 1, userid = 1, date = ''2023-02-03'', volume = 40\<rparr>,
      \<lparr>id_pay = 2, userid = 2, date = ''2023-02-04'', volume = 12\<rparr>] \<and>
   1 \<in> PayData.userid ` set (pay_data paid_store) \<and>
   (1, ''2023-02-04'') \<notin> pay_key ` set (pay_data paid_store) \<and>
   pay_data (insert_pay ''2023-02-04'' 1 100 paid_store) =
     pay_data paid_store @ [\<lparr>id_pay = 3, userid = 1, date = ''2023-02-04'', volume = 100\<rparr>] \<and>
   get_today_pay_data (\<lambda>k. ''2023-02-04'') 1
     (insert_pay ''2023-02-04'' 1 50 (insert_pay ''2023-02-04'' 1 100 paid_store)) = Inr 150 \<and>
   ''2023-02-03'' \<noteq> ''2023-02-04'' \<and>
   get_today_pay_data (\<lambda>k. ''2023-02-03'') 1 (insert_pay ''2023-02-04'' 1 100 paid_store) =
     get_today_pay_data (\<lambda>k. ''2023-02-03'') 1 paid_store"
proof -
  have rows: "pay_data paid_store =
      [\<lparr>id_pay = 1, userid = 1, date = ''2023-02-03'', volume = 40\<rparr>,
       \<lparr>id_pay = 2, userid = 2, date = ''2023-02-04'', volume = 7\<rparr>]"
    by (simp add: paid_store_def)
  have nid: "next_id (pay_data paid_store) = 3" by (simp add: rows next_id_def)
  have trunc: "py_int (25 / 2) = 12" by code_simp
  have a: "3 \<notin> PayData.userid ` set (pay_data paid_store)" by (simp add: rows)
  have b: "find (\<lambda>p. PayData.userid p = 2 \<and> date p = ''2023-02-04'') (pay_data paid_store) =
     Some \<lparr>id_pay = 2, userid = 2, date = ''2023-02-04'', volume = 7\<rparr>" by (simp add: rows)
  have c: "1 \<in> PayData.userid ` set (pay_data paid_store)"
    "(1, ''2023-02-04'') \<notin> pay_key ` set (pay_data paid_store)"
    by (simp_all add: rows pay_key_def)
  have ra: "pay_data (insert_pay ''2023-02-04'' 3 (25 / 2) paid_store) =
     pay_data paid_store @ [\<lparr>id_pay = 3, userid = 3, date = ''2023-02-04'', volume = 12\<rparr>]"
    using insert_pay_cases [of paid_store "25 / 2" 3 "''2023-02-04''"] a
    by (simp add: Let_def nid trunc)
  have rb: "pay_data (insert_pay ''2023-02-04'' 2 5 paid_store) =
     [\<lparr>id_pay = 1, userid = 1, date = ''2023-02-03'', volume = 40\<rparr>,
      \<lparr>id_pay = 2, userid = 2, date = ''2023-02-04'', volume = 12\<rparr>]"
    using insert_pay_cases [of paid_store 5 2 "''2023-02-04''"] b
    by (simp add: Let_def rows)
  have rc: "pay_data (insert_pay ''2023-02-04'' 1 100 paid_store) =
     pay_data paid_store @ [\<lparr>id_pay = 3, userid = 1, date = ''2023-02-04'', volume = 100\<rparr>]"
    and rd: "get_today_pay_data (\<lambda>k. ''2023-02-04'') 1
     (insert_pay ''2023-02-04'' 1 50 (insert_pay ''2023-02-04'' 1 100 paid_store)) = Inr 150"
    and re: "get_today_pay_data (\<lambda>k. ''2023-02-03'') 1 (insert_pay ''2023-02-04'' 1 100 paid_store) =
     get_today_pay_data (\<lambda>k. ''2023-02-03'') 1 paid_store"
    using insert_pay_cases [of paid_store 100 1 "''2023-02-04''"] c
    by (simp_all add: Let_def nid)
  from a b c ra rb rc rd re show ?thesis by simp
qed

text \<open>
  C6. \<^verbatim>\<open>get_Coins\<close> for a \<open>userid\<close> without a row fails with the attribute error of
  \<^verbatim>\<open>None\<close>; \<^verbatim>\<open>get_today_pay_data\<close> for a user without a row for today returns \<open>0.0\<close>.
\<close>

theorem missing_rows:
  "(uid \<notin> UserData.userid ` set (userdata s) \<longrightarrow> get_Coins uid s = Inl AttributeError) \<and>
   ((uid, today 0) \<notin> pay_key ` set (pay_data s) \<longrightarrow> get_today_pay_data today uid s = Inr 0)"
proof (intro conjI impI)
  assume "uid \<notin> UserData.userid ` set (userdata s)"
  then have "find (\<lambda>i. UserData.userid i = uid) (userdata s) = None"
    by (simp add: find_userid_None)
  then show "get_Coins uid s = Inl AttributeError" by (simp add: get_Coins_def)
next
  assume "(uid, today 0) \<notin> pay_key ` set (pay_data s)"
  then have "find (\<lambda>p. PayData.userid p = uid \<and> date p = today 0) (pay_data s) = None"
    by (simp add: find_pay_None)
  then show "get_today_pay_data today uid s = Inr 0" by (simp add: get_today_pay_data_def)
qed

theorem missing_rows_witness:
  "7 \<notin> UserData.userid ` set (userdata paid_store) \<and>
   get_Coins 7 paid_store = Inl AttributeError \<and>
   (1, ''2023-02-04'') \<notin> pay_key ` set (pay_data paid_store) \<and>
   get_today_pay_data (\<lambda>k. ''2023-02-04'') 1 paid_store = Inr 0"
proof -
  have a: "7 \<notin> UserData.userid ` set (userdata paid_store)" by (simp add: paid_store_def)
  have b: "(1, ''2023-02-04'') \<notin> pay_key ` set (pay_data paid_store)"
    by (simp add: paid_store_def pay_key_def)
  from missing_rows [of 7 paid_store] missing_rows [of 1 paid_store "\<lambda>k. ''2023-02-04''"] a b
  show ?thesis by simp
qed

lemma pay_keys_insert_pay_update:
  assumes "find (\<lambda>p. PayData.userid p = uid \<and> date p = d) (pay_data s) = Some first"
  shows "map pay_key (pay_data (insert_pay d uid v s)) = map pay_key (pay_data s)"
proof -
  have key: "pay_key (if c then p\<lparr>volume := x\<rparr> else p) = pay_key p" for c p x
    by (simp add: pay_key_def)
  show ?thesis by (simp add: insert_pay_update [OF assms] key comp_def)
qed

lemma pay_unique_insert_pay:
  assumes "pay_unique (pay_data s)"
  shows "pay_unique (pay_data (insert_pay d uid v s))"
proof (cases "find (\<lambda>p. PayData.userid p = uid \<and> date p = d) (pay_data s)")
  case None
  then have absent: "(uid, d) \<notin> pay_key ` set (pay_data s)" by (simp add: find_pay_None)
  from insert_pay_append [OF absent] absent assms show ?thesis
    by (simp add: pay_unique_def pay_key_def)
next
  case (Some first)
  from pay_keys_insert_pay_update [OF Some, of v] assms show ?thesis
    by (simp only: pay_unique_def)
qed

lemma pay_unique_insert_pays:
  assumes "pay_unique (pay_data s)"
  shows "pay_unique (pay_data (insert_pays calls s))"
  using assms
proof (induction calls arbitrary: s)
  case Nil
  then show ?case by (simp add: insert_pays_def)
next
  case (Cons call calls)
  obtain d uid v where call: "call = (d, uid, v)" by (cases call)
  from Cons.prems have "pay_unique (pay_data (insert_pay d uid v s))"
    by (rule pay_unique_insert_pay)
  from Cons.IH [OF this] show ?case by (simp add: insert_pays_def call)
qed

text \<open>
  C7. A payment table with at most one row for each user and date keeps that property
  under every sequence of calls of \<^verbatim>\<open>insert_pay\<close>, and so does the empty table. A payment
  on a day that has a row for the user adds no row: the keys of the table stay the same,
  and the volume of the day grows by the payment.
\<close>

theorem one_record_per_user_and_day:
  "(pay_unique (pay_data s) \<longrightarrow> pay_unique (pay_data (insert_pays calls s))) \<and>
   (pay_data s = [] \<longrightarrow> pay_unique (pay_data (insert_pays calls s))) \<and>
   ((uid, d) \<in> pay_key ` set (pay_data s) \<longrightarrow>
      map pay_key (pay_data (insert_pay d uid v s)) = map pay_key (pay_data s) \<and>
      (\<exists>t. get_today_pay_data (\<lambda>k. d) uid s = Inr t \<and>
           get_today_pay_data (\<lambda>k. d) uid (insert_pay d uid v s) = Inr (t + of_int (py_int v))))"
proof (intro conjI impI)
  assume "pay_unique (pay_data s)"
  then show "pay_unique (pay_data (insert_pays calls s))" by (rule pay_unique_insert_pays)
next
  assume "pay_data s = []"
  then have "pay_unique (pay_data s)" by (simp add: pay_unique_def)
  then show "pay_unique (pay_data (insert_pays calls s))" by (rule pay_unique_insert_pays)
next
  assume "(uid, d) \<in> pay_key ` set (pay_data s)"
  then obtain first where first: "find (\<lambda>p. PayData.userid p = uid \<and> date p = d) (pay_data s) = Some first"
    using find_pay_None [of uid d "pay_data s"] by (cases "find (\<lambda>p. PayData.userid p = uid \<and> date p = d) (pay_data s)") auto
  then show "map pay_key (pay_data (insert_pay d uid v s)) = map pay_key (pay_data s)"
    by (rule pay_keys_insert_pay_update)
next
  show "\<exists>t. get_today_pay_data (\<lambda>k. d) uid s = Inr t \<and>
           get_today_pay_data (\<lambda>k. d) uid (insert_pay d uid v s) = Inr (t + of_int (py_int v))"
    by (rule get_today_insert_pay)
qed

theorem one_record_per_user_and_day_witness:
  "pay_unique (pay_data paid_store) \<and>
   pay_unique (pay_data (insert_pays
      [(''2023-02-04'', 1, 100), (''2023-02-04'', 1, 50), (''2023-02-05'', 1, 3)] paid_store)) \<and>
   pay_data (paid_store\<lparr>pay_data := []\<rparr>) = [] \<and>
   pay_unique (pay_data (insert_pays
      [(''2023-02-04'', 1, 100), (''2023-02-04'', 1, 50)] (paid_store\<lparr>pay_data := []\<rparr>))) \<and>
   (2, ''2023-02-04'') \<in> pay_key ` set (pay_data paid_store) \<and>
   map pay_key (pay_data (insert_pay ''2023-02-04'' 2 5 paid_store)) =
     map pay_key (pay_data paid_store) \<and>
   get_today_pay_data (\<lambda>k. ''2023-02-04'') 2 paid_store = Inr 7 \<and>
   get_today_pay_data (\<lambda>k. ''2023-02-04'') 2 (insert_pay ''2023-02-04'' 2 5 paid_store) = Inr 12"
proof -
  have u: "pay_unique (pay_data paid_store)"
    by (simp add: paid_store_def pay_unique_def pay_key_def)
  have e: "pay_data (paid_store\<lparr>pay_data := []\<rparr>) = []" by simp
  have k: "(2, ''2023-02-04'') \<in> pay_key ` set (pay_data paid_store)"
    by (simp add: paid_store_def pay_key_def)
  have t: "get_today_pay_data (\<lambda>k. ''2023-02-04'') 2 paid_store = Inr 7"
    by (simp add: paid_store_def get_today_pay_data_def)
  from one_record_per_user_and_day [of paid_store
      "[(''2023-02-04'', 1, 100), (''2023-02-04'', 1, 50), (''2023-02-05'', 1, 3)]"
      2 "''2023-02-04''" 5]
    one_record_per_user_and_day [of "paid_store\<lparr>pay_data := []\<rparr>"
      "[(''2023-02-04'', 1, 100), (''2023-02-04'', 1, 50)]" 2 "''2023-02-04''" 5]
    u e k t
  show ?thesis by simp
qed

section \<open>The inactivity sweep\<close>

lemma punish_rows_length [simp]: "length (punish_rows time random rows) = length rows"
  by (induction rows arbitrary: time random) simp_all

lemma punish_rows_nth:
  "n < length rows \<Longrightarrow>
   \<exists>k. punish_rows time random rows ! n =
     (if time n - of_int (last_login (rows ! n)) > 86400 \<and> Coins (rows ! n) > 1
      then (rows ! n)\<lparr>Coins := py_round3 (Coins (rows ! n) - random k)\<rparr>
      else rows ! n)"
proof (induction rows arbitrary: time random n)
  case Nil
  then show ?case by simp
next
  case (Cons i rows)
  show ?case
  proof (cases n)
    case 0
    then show ?thesis by (auto intro: exI [of _ 0])
  next
    case (Suc m)
    with Cons.prems have m: "m < length rows" by simp
    show ?thesis
    proof (cases "time 0 - of_int (last_login i) > 86400 \<and> Coins i > 1")
      case True
      from Cons.IH [OF m, of "\<lambda>k. time (Suc k)" "\<lambda>k. random (Suc k)"]
      obtain k where "punish_rows (\<lambda>k. time (Suc k)) (\<lambda>k. random (Suc k)) rows ! m =
         (if time (Suc m) - of_int (last_login (rows ! m)) > 86400 \<and> Coins (rows ! m) > 1
          then (rows ! m)\<lparr>Coins := py_round3 (Coins (rows ! m) - random (Suc k))\<rparr>
          else rows ! m)" by blast
      with True Suc show ?thesis by (intro exI [of _ "Suc k"]) simp
    next
      case False
      from Cons.IH [OF m, of "\<lambda>k. time (Suc k)" random]
      obtain k where "punish_rows (\<lambda>k. time (Suc k)) random rows ! m =
         (if time (Suc m) - of_int (last_login (rows ! m)) > 86400 \<and> Coins (rows ! m) > 1
          then (rows ! m)\<lparr>Coins := py_round3 (Coins (rows ! m) - random k)\<rparr>
          else rows ! m)" by blast
      with False Suc show ?thesis by (intro exI [of _ k]) auto
    qed
  qed
qed

lemma punish_rows_userid [simp]:
  "map UserData.userid (punish_rows time random rows) = map UserData.userid rows"
  by (induction rows arbitrary: time random) simp_all

lemma punish_rows_last_login [simp]:
  "map last_login (punish_rows time random rows) = map last_login rows"
  by (induction rows arbitrary: time random) simp_all

lemma punish_row_cases:
  assumes u: "unit_interval random" and n: "n < length (userdata s)"
  obtains r where "0 \<le> r" "r < 1"
    "userdata (punish_all_inactive_users time random s) ! n =
       (if time n - of_int (last_login (userdata s ! n)) > 86400 \<and> Coins (userdata s ! n) > 1
        then (userdata s ! n)\<lparr>Coins := py_round3 (Coins (userdata s ! n) - r)\<rparr>
        else userdata s ! n)"
proof -
  from punish_rows_nth [OF n, of time random] obtain k where
    "punish_rows time random (userdata s) ! n =
       (if time n - of_int (last_login (userdata s ! n)) > 86400 \<and> Coins (userdata s ! n) > 1
        then (userdata s ! n)\<lparr>Coins := py_round3 (Coins (userdata s ! n) - random k)\<rparr>
        else userdata s ! n)" by blast
  moreover from u have "0 \<le> random k" "random k < 1" by (simp_all add: unit_interval_def)
  ultimately show thesis using that by (simp add: punish_all_inactive_users_def)
qed






text \<open>
  C10. Let \<open>random\<close> take its values in \<open>[0, 1)\<close>. A balance above 1 is at least 0 after
  the sweep, a balance of at most 1 is kept exactly; so no balance that was at least 0
  becomes negative.
\<close>

theorem punish_never_negative:
  assumes u: "unit_interval random" and n: "n < length (userdata s)"
  shows "let old = Coins (userdata s ! n);
             new = Coins (userdata (punish_all_inactive_users time random s) ! n)
         in (1 < old \<longrightarrow> 0 \<le> new) \<and> (old \<le> 1 \<longrightarrow> new = old) \<and> (0 \<le> old \<longrightarrow> 0 \<le> new)"
proof -
  from punish_row_cases [OF u n, of time] obtain r where r: "0 \<le> r" "r < 1"
    and eq: "userdata (punish_all_inactive_users time random s) ! n =
       (if time n - of_int (last_login (userdata s ! n)) > 86400 \<and> Coins (userdata s ! n) > 1
        then (userdata s ! n)\<lparr>Coins := py_round3 (Coins (userdata s ! n) - r)\<rparr>
        else userdata s ! n)" by blast
  have "0 \<le> py_round3 (Coins (userdata s ! n) - r)" if "1 < Coins (userdata s ! n)"
    using that r by (intro py_round3_nonneg) simp
  with eq show ?thesis by (auto simp: Let_def)
qed

theorem punish_never_negative_witness:
  "unit_interval (\<lambda>k. 1 / 2) \<and> 0 < length (userdata sweep_store) \<and>
   2 < length (userdata sweep_store) \<and>
   1 < Coins (userdata sweep_store ! 0) \<and>
   0 \<le> Coins (userdata (punish_all_inactive_users (\<lambda>k. 172800) (\<lambda>k. 1 / 2) sweep_store) ! 0) \<and>
   Coins (userdata sweep_store ! 2) \<le> 1 \<and>
   Coins (userdata (punish_all_inactive_users (\<lambda>k. 172800) (\<lambda>k. 1 / 2) sweep_store) ! 2) =
     Coins (userdata sweep_store ! 2)"
proof -
  have u: "unit_interval (\<lambda>k. 1 / 2)" by (simp add: unit_interval_def)
  have n0: "0 < length (userdata sweep_store)" and n2: "2 < length (userdata sweep_store)"
    by (simp_all add: sweep_store_def)
  have h0: "1 < Coins (userdata sweep_store ! 0)" and h2: "Coins (userdata sweep_store ! 2) \<le> 1"
    by (simp_all add: sweep_store_def)
  from punish_never_negative [OF u n0, of "\<lambda>k. 172800"] h0
  have c0: "0 \<le> Coins (userdata (punish_all_inactive_users (\<lambda>k. 172800) (\<lambda>k. 1 / 2) sweep_store) ! 0)"
    by (simp add: Let_def)
  from punish_never_negative [OF u n2, of "\<lambda>k. 172800"] h2
  have c2: "Coins (userdata (punish_all_inactive_users (\<lambda>k. 172800) (\<lambda>k. 1 / 2) sweep_store) ! 2) =
     Coins (userdata sweep_store ! 2)"
    by (simp add: Let_def)
  from u n0 n2 h0 h2 c0 c2 show ?thesis by simp
qed

section \<open>The leaderboard\<close>

lemma map_insort_key:
  "map g (insort_key (\<lambda>x. k (g x)) x xs) = insort_key k (g x) (map g xs)"
  by (induction xs) simp_all

lemma map_sort_key:
  "map g (sort_key (\<lambda>x. k (g x)) xs) = sort_key k (map g xs)"
  by (induction xs) (simp_all add: map_insort_key)

lemma sorted_wrt_strict:
  fixes f :: "'a \<Rightarrow> 'b :: linorder"
  shows "sorted_wrt (\<lambda>a b. f b \<le> f a) xs \<Longrightarrow> distinct (map f xs) \<Longrightarrow>
    sorted_wrt (\<lambda>a b. f b < f a) xs"
  by (induction xs) (auto simp: less_le image_iff)

lemma get_sorted_sort_key:
  "get_sorted s =
     sort_key (\<lambda>p. - snd p) (map (\<lambda>i. (UserData.userid i, Coins i)) (userdata s))"
  using map_sort_key [of "\<lambda>i. (UserData.userid i, Coins i)" "\<lambda>p. - snd p" "userdata s"]
  by (simp add: get_sorted_def)

text \<open>
  C8. \<^verbatim>\<open>get_sorted\<close> returns the entries \<open>(userid, Coins)\<close> of all users, each once, in
  non-increasing order of \<open>Coins\<close>. When the balances are distinct the order is strictly
  decreasing, and no other arrangement of the entries is non-increasing: the result does
  not depend on how the database orders equal balances.
\<close>

theorem get_sorted_descending:
  "mset (get_sorted s) = mset (map (\<lambda>i. (UserData.userid i, Coins i)) (userdata s)) \<and>
   sorted_wrt (\<lambda>a b. snd b \<le> snd a) (get_sorted s) \<and>
   (distinct (map Coins (userdata s)) \<longrightarrow>
      sorted_wrt (\<lambda>a b. snd b < snd a) (get_sorted s) \<and>
      (\<forall>ys. mset ys = mset (map (\<lambda>i. (UserData.userid i, Coins i)) (userdata s)) \<and>
            sorted_wrt (\<lambda>a b. snd b \<le> snd a) ys \<longrightarrow> ys = get_sorted s))"
proof (intro conjI impI allI)
  let ?entries = "map (\<lambda>i. (UserData.userid i, Coins i)) (userdata s)"
  show perm: "mset (get_sorted s) = mset ?entries"
    by (simp add: get_sorted_sort_key)
  have "sorted (map (\<lambda>p. - snd p) (get_sorted s))"
    unfolding get_sorted_sort_key by (rule sorted_sort_key)
  then show desc: "sorted_wrt (\<lambda>a b. snd b \<le> snd a) (get_sorted s)"
    by (simp add: sorted_map)
  {
    assume d: "distinct (map Coins (userdata s))"
    have snd_entries: "map snd ?entries = map Coins (userdata s)" by (simp add: comp_def)
    from d have de: "distinct (map snd ?entries)" by (simp only: snd_entries)
    have "image_mset snd (mset (get_sorted s)) = image_mset snd (mset ?entries)"
      by (simp only: perm)
    then have "mset (map snd (get_sorted s)) = mset (map snd ?entries)"
      by (simp only: mset_map)
    with de have "distinct (map snd (get_sorted s))"
      by (metis mset_eq_imp_distinct_iff)
    with desc show "sorted_wrt (\<lambda>a b. snd b < snd a) (get_sorted s)"
      by (rule sorted_wrt_strict)
    fix ys
    assume ys: "mset ys = mset ?entries \<and> sorted_wrt (\<lambda>a b. snd b \<le> snd a) ys"
    from de have inj: "inj_on (\<lambda>p. - snd p) (set ?entries)"
      by (auto simp: distinct_map inj_on_def)
    from ys have "sorted (map (\<lambda>p. - snd p) ys)" by (simp add: sorted_map)
    with ys inj have "sort_key (\<lambda>p. - snd p) ?entries = ys"
      by (intro sort_key_inj_key_eq) simp_all
    then show "ys = get_sorted s" by (simp add: get_sorted_sort_key)
  }
qed

theorem get_sorted_descending_witness:
  "distinct (map Coins (userdata sweep_store)) \<and>
   get_sorted sweep_store = [(2, 7), (1, 5), (3, 1 / 2)] \<and>
   mset [(2, 7), (1, 5), (3, 1 / 2)] =
     mset (map (\<lambda>i. (UserData.userid i, Coins i)) (userdata sweep_store)) \<and>
   sorted_wrt (\<lambda>a b. snd b \<le> snd a) [(2 :: int, 7 :: rat), (1, 5), (3, 1 / 2)]"
proof -
  have d: "distinct (map Coins (userdata sweep_store))" by (simp add: sweep_store_def)
  have m: "mset [(2, 7), (1, 5), (3, 1 / 2)] =
     mset (map (\<lambda>i. (UserData.userid i, Coins i)) (userdata sweep_store))"
    by (simp add: sweep_store_def)
  have o: "sorted_wrt (\<lambda>a b. snd b \<le> snd a) [(2 :: int, 7 :: rat), (1, 5), (3, 1 / 2)]"
    by simp
  from get_sorted_descending [of sweep_store] d m o
  have "[(2, 7), (1, 5), (3, 1 / 2)] = get_sorted sweep_store" by blast
  with d m o show ?thesis by simp
qed

end
